theory Spec2Isabelle
  imports Main "HOL-Library.Sublist"
begin

section \<open>Strings\<close>

text \<open>
  A JavaScript string is modelled as a \<^typ>\<open>string\<close>: a list of code units, here the
  code units below 256. The helpers below are the string methods the sources call.
\<close>

text \<open>The characters matched by \<open>\s\<close> and stripped by \<open>trim()\<close> (WhiteSpace and LineTerminator):
  TAB, LF, VT, FF, CR, SPACE and NBSP.\<close>

definition is_ws :: "char \<Rightarrow> bool" where
  "is_ws c = (c \<in> set [CHR 0x09, CHR 0x0A, CHR 0x0B, CHR 0x0C, CHR 0x0D, CHR 0x20, CHR 0xA0])"

text \<open>\<open>String.prototype.trim\<close>.\<close>

definition trim :: "string \<Rightarrow> string" where
  "trim s = rev (dropWhile is_ws (rev (dropWhile is_ws s)))"

text \<open>\<open>String.prototype.startsWith\<close> and \<open>String.prototype.includes\<close> (named \<open>includes_str\<close> here).\<close>

fun startsWith :: "string \<Rightarrow> string \<Rightarrow> bool" where
  "startsWith s [] = True"
| "startsWith [] (p # ps) = False"
| "startsWith (c # s) (p # ps) = (c = p \<and> startsWith s ps)"

fun includes_str :: "string \<Rightarrow> string \<Rightarrow> bool" where
  "includes_str [] sub = startsWith [] sub"
| "includes_str (c # s) sub = (startsWith (c # s) sub \<or> includes_str s sub)"

text \<open>\<open>String.prototype.toLowerCase\<close> on code units below 256: \<open>A-Z\<close> and the Latin-1
  capitals \<open>0xC0-0xDE\<close> (without the multiplication sign \<open>0xD7\<close>) move up by 32.\<close>

definition lower_char :: "char \<Rightarrow> char" where
  "lower_char c = (let n = (of_char c :: nat) in
     if (65 \<le> n \<and> n \<le> 90) \<or> (192 \<le> n \<and> n \<le> 222 \<and> n \<noteq> 215)
     then char_of (n + 32) else c)"

definition toLowerCase :: "string \<Rightarrow> string" where
  "toLowerCase s = map lower_char s"

text \<open>\<open>Array.prototype.indexOf\<close>: the first index of the element, \<open>-1\<close> when absent.\<close>

fun indexOf :: "'a list \<Rightarrow> 'a \<Rightarrow> int" where
  "indexOf [] x = -1"
| "indexOf (y # ys) x = (if y = x then 0 else (let i = indexOf ys x in if i < 0 then -1 else i + 1))"

text \<open>\<open>Array.prototype.shift\<close>: removes the first element; nothing happens on an empty array.\<close>

fun shift :: "'a list \<Rightarrow> 'a list" where
  "shift [] = []"
| "shift (x # xs) = xs"

section \<open>Types (src/packages/adb/src/types.ts)\<close>

datatype LogLevel = V | D | I | W | E | F | S

text \<open>The values \<open>parseInt\<close> returns: an integer or \<open>NaN\<close>.\<close>

datatype number = Num int | NaN

text \<open>\<open>timestamp\<close> holds the string handed to the \<open>Date\<close> constructor.\<close>

record LogcatEntry =
  timestamp :: string
  pid :: number
  tid :: number
  level :: LogLevel
  tag :: string
  message :: string

text \<open>\<open>LOG_LEVEL_PRIORITY\<close> of logcat.ts (higher = more severe).\<close>

fun LOG_LEVEL_PRIORITY :: "LogLevel \<Rightarrow> nat" where
  "LOG_LEVEL_PRIORITY V = 0"
| "LOG_LEVEL_PRIORITY D = 1"
| "LOG_LEVEL_PRIORITY I = 2"
| "LOG_LEVEL_PRIORITY W = 3"
| "LOG_LEVEL_PRIORITY E = 4"
| "LOG_LEVEL_PRIORITY F = 5"
| "LOG_LEVEL_PRIORITY S = 6"

section \<open>LogcatTreeProvider (src/unnamed/part_001, the logcat view of the extension)\<close>

text \<open>
  The fields of the provider that \<open>addEntry\<close> reads and writes. \<open>maxEntries\<close> is the
  setting \<open>logcat.maxLines\<close>, a count of lines. \<open>outputChannel\<close> lists the entries handed
  to \<open>writeToOutput\<close>, in order (the formatting of the line is not modelled).
\<close>

record LogcatTreeProvider =
  entries :: "LogcatEntry list"
  maxEntries :: nat
  filter_str :: "string option"
  minLevel :: LogLevel
  outputChannel :: "LogcatEntry list"

definition levels :: "LogLevel list" where
  "levels = [V, D, I, W, E, F, S]"

text \<open>\<open>if (this.filter)\<close>: an absent and an empty string are both falsy.\<close>

definition addEntry :: "LogcatTreeProvider \<Rightarrow> LogcatEntry \<Rightarrow> LogcatTreeProvider" where
  "addEntry p e =
     (if indexOf levels (level e) < indexOf levels (minLevel p) then p
      else if (case filter_str p of
                 None \<Rightarrow> False
               | Some f \<Rightarrow> f \<noteq> [] \<and>
                   \<not> includes_str (toLowerCase (tag e)) (toLowerCase f) \<and>
                   \<not> includes_str (toLowerCase (message e)) (toLowerCase f)) then p
      else
        (let pushed = entries p @ [e];
             kept = (if length pushed > maxEntries p then shift pushed else pushed)
         in p\<lparr>entries := kept, outputChannel := outputChannel p @ [e]\<rparr>))"

text \<open>The provider after the entry events \<open>es\<close>, delivered in order.\<close>

definition addEntries :: "LogcatTreeProvider \<Rightarrow> LogcatEntry list \<Rightarrow> LogcatTreeProvider" where
  "addEntries p es = foldl addEntry p es"

text \<open>
  The retention rule in the words of the specification: the level is at least the
  configured minimum, and either no text filter is configured or the lower-case tag or the
  lower-case message contains the lower-case filter.
\<close>

definition spec_retained :: "LogLevel \<Rightarrow> string option \<Rightarrow> LogcatEntry \<Rightarrow> bool" where
  "spec_retained lv flt e =
     (LOG_LEVEL_PRIORITY lv \<le> LOG_LEVEL_PRIORITY (level e) \<and>
      (case flt of
         None \<Rightarrow> True
       | Some f \<Rightarrow> sublist (toLowerCase f) (toLowerCase (tag e)) \<or>
                   sublist (toLowerCase f) (toLowerCase (message e))))"

section \<open>Regular expressions\<close>

text \<open>
  The regular expressions of the sources are sequences of character classes, each taken
  once, a fixed number of times, or under \<open>*\<close> or \<open>+\<close> (greedy, or lazy when followed by
  \<open>?\<close>), with capture groups around runs of them and \<open>$\<close> at the end. \<open>bt\<close> is the
  backtracking matcher of the language for such expressions, started at the head of the
  input: a greedy quantifier tries the longest run first, a lazy one the shortest. It
  returns the capture groups of the first match found and the input left after it.
\<close>

type_synonym cls = "char \<Rightarrow> bool"

datatype greed = Greedy | Lazy

datatype item =
    One cls
  | Times nat cls
  | Star greed cls
  | Plus greed cls
  | Open nat
  | Close nat
  | Eol

record mstate =
  starts :: "nat \<Rightarrow> string"
  groups :: "nat \<Rightarrow> string"

fun bt :: "item list \<Rightarrow> string \<Rightarrow> mstate \<Rightarrow> ((nat \<Rightarrow> string) \<times> string) option" where
  "bt [] s m = Some (groups m, s)"
| "bt (Eol # r) s m = (if s = [] then bt r s m else None)"
| "bt (Open n # r) s m = bt r s (m\<lparr>starts := (starts m)(n := s)\<rparr>)"
| "bt (Close n # r) s m =
     bt r s (m\<lparr>groups := (groups m)(n := take (length (starts m n) - length s) (starts m n))\<rparr>)"
| "bt (One p # r) [] m = None"
| "bt (One p # r) (c # s) m = (if p c then bt r s m else None)"
| "bt (Times 0 p # r) s m = bt r s m"
| "bt (Times (Suc n) p # r) [] m = None"
| "bt (Times (Suc n) p # r) (c # s) m = (if p c then bt (Times n p # r) s m else None)"
| "bt (Plus g p # r) [] m = None"
| "bt (Plus g p # r) (c # s) m = (if p c then bt (Star g p # r) s m else None)"
| "bt (Star Greedy p # r) [] m = bt r [] m"
| "bt (Star Greedy p # r) (c # s) m =
     (if p c
      then (case bt (Star Greedy p # r) s m of
              Some res \<Rightarrow> Some res
            | None \<Rightarrow> bt r (c # s) m)
      else bt r (c # s) m)"
| "bt (Star Lazy p # r) [] m = bt r [] m"
| "bt (Star Lazy p # r) (c # s) m =
     (case bt r (c # s) m of
        Some res \<Rightarrow> Some res
      | None \<Rightarrow> if p c then bt (Star Lazy p # r) s m else None)"


definition no_groups :: mstate where
  "no_groups = \<lparr>starts = (\<lambda>_. []), groups = (\<lambda>_. [])\<rparr>"

text \<open>One match attempt at the head of the input.\<close>

definition exec_at :: "item list \<Rightarrow> string \<Rightarrow> ((nat \<Rightarrow> string) \<times> string) option" where
  "exec_at re s = bt re s no_groups"

text \<open>A literal character, \<open>\d\<close>, and \<open>.\<close> (any character but a line terminator).\<close>

definition lit :: "char \<Rightarrow> item" where
  "lit c = One (\<lambda>x. x = c)"

definition is_digit :: cls where
  "is_digit c = (c \<in> set ''0123456789'')"

definition is_dot :: cls where
  "is_dot c = (c \<noteq> CHR 0x0A \<and> c \<noteq> CHR 0x0D)"

text \<open>\<open>String.prototype.split\<close> with a one-character separator: never an empty array.\<close>

fun split_on :: "char \<Rightarrow> string \<Rightarrow> string list" where
  "split_on d [] = [[]]"
| "split_on d (c # s) =
     (if c = d then [] # split_on d s
      else (let r = split_on d s in (c # hd r) # tl r))"

text \<open>
  \<open>parseInt(s, 10)\<close>: leading white space is skipped, then an optional sign, then the
  longest run of digits; without a digit the result is \<open>NaN\<close>. (The rounding of integers
  beyond \<open>2^53\<close> is not modelled.)
\<close>

definition decimal :: "string \<Rightarrow> nat" where
  "decimal ds = foldl (\<lambda>a c. 10 * a + (of_char c - 48)) 0 ds"

definition parseInt :: "string \<Rightarrow> number" where
  "parseInt s =
     (let t = dropWhile is_ws s;
          signed = (t \<noteq> [] \<and> (hd t = CHR ''-'' \<or> hd t = CHR ''+''));
          body = (if signed then tl t else t);
          ds = takeWhile is_digit body
      in if ds = [] then NaN
         else if signed \<and> hd t = CHR ''-'' then Num (- int (decimal ds))
         else Num (int (decimal ds)))"

section \<open>Logcat (src/packages/adb/src/logcat.ts)\<close>

text \<open>
  The expression of \<open>parseLogcatLine\<close>:
  \<^verbatim>\<open>/^(\d{2}-\d{2})\s+(\d{2}:\d{2}:\d{2}\.\d{3})\s+(\d+)\s+(\d+)\s+([VDIWEFS])\s+([^:]+?)\s*:\s*(.*)$/\<close>.
  The leading \<open>^\<close> is the start of the input, where \<open>exec_at\<close> begins.
\<close>

definition logcat_regex :: "item list" where
  "logcat_regex =
     [Open 1, Times 2 is_digit, lit CHR ''-'', Times 2 is_digit, Close 1,
      Plus Greedy is_ws,
      Open 2, Times 2 is_digit, lit CHR '':'', Times 2 is_digit, lit CHR '':'', Times 2 is_digit,
              lit CHR ''.'', Times 3 is_digit, Close 2,
      Plus Greedy is_ws,
      Open 3, Plus Greedy is_digit, Close 3,
      Plus Greedy is_ws,
      Open 4, Plus Greedy is_digit, Close 4,
      Plus Greedy is_ws,
      Open 5, One (\<lambda>c. c \<in> set ''VDIWEFS''), Close 5,
      Plus Greedy is_ws,
      Open 6, Plus Lazy (\<lambda>c. c \<noteq> CHR '':''), Close 6,
      Star Greedy is_ws, lit CHR '':'', Star Greedy is_ws,
      Open 7, Star Greedy is_dot, Close 7, Eol]"






text \<open>The cast \<open>level as LogLevel\<close>: group 5 is one of the seven letters.\<close>

definition toLogLevel :: "string \<Rightarrow> LogLevel" where
  "toLogLevel s =
     (if s = ''V'' then V else if s = ''D'' then D else if s = ''I'' then I
      else if s = ''W'' then W else if s = ''E'' then E else if s = ''F'' then F else S)"

text \<open>\<open>currentYear\<close> is the current year as the template string prints it.\<close>

definition parseLogcatLine :: "string \<Rightarrow> string \<Rightarrow> LogcatEntry option" where
  "parseLogcatLine currentYear line =
     (case exec_at logcat_regex line of
        None \<Rightarrow> None
      | Some (g, rest) \<Rightarrow>
          Some \<lparr>timestamp = currentYear @ ''-'' @ g 1 @ ''T'' @ g 2,
                pid = parseInt (g 3),
                tid = parseInt (g 4),
                level = toLogLevel (g 5),
                tag = trim (g 6),
                message = g 7\<rparr>)"

record LogcatOptions =
  opt_adbPath :: "string option"
  opt_serial :: "string option"
  opt_minLevel :: "LogLevel option"
  opt_tags :: "string list option"

text \<open>\<open>process\<close> is the child process, given by the arguments it was spawned with.\<close>

record LogcatStream =
  process :: "string list option"
  adbPath :: string
  stream_serial :: "string option"
  stream_minLevel :: LogLevel
  tags :: "string list"
  buffer :: string

datatype stream_event = Ev_start | Ev_entry LogcatEntry | Ev_error string | Ev_close "int option"

datatype stream_error = AlreadyRunning

definition new_LogcatStream :: "LogcatOptions \<Rightarrow> LogcatStream" where
  "new_LogcatStream options =
     \<lparr>process = None,
      adbPath = (case opt_adbPath options of Some a \<Rightarrow> a | None \<Rightarrow> ''adb''),
      stream_serial = opt_serial options,
      stream_minLevel = (case opt_minLevel options of Some l \<Rightarrow> l | None \<Rightarrow> V),
      tags = (case opt_tags options of Some ts \<Rightarrow> ts | None \<Rightarrow> []),
      buffer = []\<rparr>"

fun level_letter :: "LogLevel \<Rightarrow> string" where
  "level_letter V = ''V''"
| "level_letter D = ''D''"
| "level_letter I = ''I''"
| "level_letter W = ''W''"
| "level_letter E = ''E''"
| "level_letter F = ''F''"
| "level_letter S = ''S''"

definition start :: "LogcatStream \<Rightarrow> stream_error + (LogcatStream \<times> stream_event list)" where
  "start strm =
     (if process strm \<noteq> None then Inl AlreadyRunning
      else
        (let args = (case stream_serial strm of
                       Some sr \<Rightarrow> if sr \<noteq> [] then [''-s'', sr] else []
                     | None \<Rightarrow> [])
                    @ [''logcat'', ''-v'', ''threadtime'']
                    @ (if length (tags strm) > 0
                       then map (\<lambda>t. t @ '':'' @ level_letter (stream_minLevel strm)) (tags strm) @ [''*:S'']
                       else [])
         in Inr (strm\<lparr>process := Some args\<rparr>, [Ev_start])))"

text \<open>\<open>stop\<close> sends SIGTERM to the child and forgets it.\<close>

definition stop :: "LogcatStream \<Rightarrow> LogcatStream" where
  "stop strm = (if process strm \<noteq> None then strm\<lparr>process := None\<rparr> else strm)"

definition isRunning :: "LogcatStream \<Rightarrow> bool" where
  "isRunning strm = (process strm \<noteq> None)"

definition shouldEmit :: "LogcatStream \<Rightarrow> LogcatEntry \<Rightarrow> bool" where
  "shouldEmit strm entry =
     (if LOG_LEVEL_PRIORITY (level entry) < LOG_LEVEL_PRIORITY (stream_minLevel strm) then False
      else True)"

text \<open>The loop of \<open>handleData\<close> over the complete lines; it lists the events emitted.\<close>

fun emit_lines :: "string \<Rightarrow> LogcatStream \<Rightarrow> string list \<Rightarrow> stream_event list" where
  "emit_lines yr strm [] = []"
| "emit_lines yr strm (line # lines) =
     (if trim line = [] then emit_lines yr strm lines
      else (case parseLogcatLine yr line of
              Some entry \<Rightarrow>
                if shouldEmit strm entry then Ev_entry entry # emit_lines yr strm lines
                else emit_lines yr strm lines
            | None \<Rightarrow> emit_lines yr strm lines))"


text \<open>\<open>lines.pop() ?? ""\<close>: the last piece, or the empty string for an empty array.\<close>

definition handleData :: "string \<Rightarrow> LogcatStream \<Rightarrow> string \<Rightarrow> LogcatStream \<times> stream_event list" where
  "handleData yr strm data =
     (let buf = buffer strm @ data;
          lines = split_on CHR 0x0A buf;
          rest = (if lines = [] then [] else last lines);
          complete = butlast lines
      in (strm\<lparr>buffer := rest\<rparr>, emit_lines yr strm complete))"

text \<open>The data events of one child, handled in arrival order.\<close>

fun handleChunks :: "string \<Rightarrow> LogcatStream \<Rightarrow> string list \<Rightarrow> LogcatStream \<times> stream_event list" where
  "handleChunks yr strm [] = (strm, [])"
| "handleChunks yr strm (data # chunks) =
     (let (strm', evs) = handleData yr strm data;
          (strm'', evs') = handleChunks yr strm' chunks
      in (strm'', evs @ evs'))"


section \<open>The logcat part of AdbService (src/apps/extension/src/services/adb.ts)\<close>

record AdbService =
  logcatStream :: "LogcatStream option"

text \<open>\<open>path\<close> is what \<open>getAdbPath()\<close> returns.\<close>

definition startLogcat ::
  "string \<Rightarrow> AdbService \<Rightarrow> string option \<Rightarrow> string list option \<Rightarrow> stream_error + AdbService" where
  "startLogcat path svc sr ts =
     (let svc1 = (case logcatStream svc of
                    Some old \<Rightarrow> if isRunning old then svc\<lparr>logcatStream := Some (stop old)\<rparr> else svc
                  | None \<Rightarrow> svc);
          fresh = new_LogcatStream
                    \<lparr>opt_adbPath = Some path, opt_serial = sr, opt_minLevel = None, opt_tags = ts\<rparr>
      in (case start fresh of
            Inl err \<Rightarrow> Inl err
          | Inr (started, evs) \<Rightarrow> Inr (svc1\<lparr>logcatStream := Some started\<rparr>)))"

definition stopLogcat :: "AdbService \<Rightarrow> AdbService" where
  "stopLogcat svc = svc\<lparr>logcatStream := None\<rparr>"

section \<open>AdbClient (src/packages/adb/src/client.ts)\<close>

record AdbResult =
  exitCode :: int
  stdout :: string
  stderr :: string

text \<open>The two errors \<open>exec\<close> rejects with: the timeout (with its duration in ms) and the
  error of the child's \<open>error\<close> event.\<close>

datatype exec_error = Timeout nat | SpawnError string

datatype promise = Pending | Resolved AdbResult | Rejected exec_error

text \<open>Settling a promise: only a pending promise changes.\<close>

fun resolve :: "promise \<Rightarrow> AdbResult \<Rightarrow> promise" where
  "resolve Pending r = Resolved r"
| "resolve settled r = settled"

fun reject :: "promise \<Rightarrow> exec_error \<Rightarrow> promise" where
  "reject Pending err = Rejected err"
| "reject settled err = settled"

record AdbClient =
  client_adbPath :: string
  defaultTimeout :: nat

record AdbOptions =
  ao_adbPath :: "string option"
  ao_timeout :: "nat option"

definition new_AdbClient :: "AdbOptions \<Rightarrow> AdbClient" where
  "new_AdbClient options =
     \<lparr>client_adbPath = (case ao_adbPath options of Some a \<Rightarrow> a | None \<Rightarrow> ''adb''),
      defaultTimeout = (case ao_timeout options of Some t \<Rightarrow> t | None \<Rightarrow> 30000)\<rparr>"

record exec_options =
  o_serial :: "string option"
  o_timeout :: "nat option"

text \<open>
  One call of \<open>exec\<close>: the arguments of the spawned child, the variables of the closure
  (\<open>stdout\<close>, \<open>stderr\<close>, \<open>killed\<close>), whether the timer is still pending, the signals sent to
  the child, and the promise returned to the caller.
\<close>

record exec_call =
  fullArgs :: "string list"
  timeout :: nat
  stdout_var :: string
  stderr_var :: string
  killed :: bool
  timer_pending :: bool
  signals :: "string list"
  returned :: promise

definition exec :: "AdbClient \<Rightarrow> string list \<Rightarrow> exec_options \<Rightarrow> exec_call" where
  "exec client args options =
     \<lparr>fullArgs = (case o_serial options of
                    Some sr \<Rightarrow> if sr \<noteq> [] then [''-s'', sr] @ args else args
                  | None \<Rightarrow> args),
      timeout = (case o_timeout options of Some t \<Rightarrow> t | None \<Rightarrow> defaultTimeout client),
      stdout_var = [],
      stderr_var = [],
      killed = False,
      timer_pending = True,
      signals = [],
      returned = Pending\<rparr>"

text \<open>
  What the event loop can deliver to the callbacks registered by \<open>exec\<close>. Each callback
  runs to completion before the next event is taken. A timer that was cleared, or that has
  fired, does not fire.
\<close>

datatype proc_event =
    Timer_fires
  | Stdout_data string
  | Stderr_data string
  | Proc_close "int option"
  | Proc_error string

fun on_event :: "exec_call \<Rightarrow> proc_event \<Rightarrow> exec_call" where
  "on_event c Timer_fires =
     (if timer_pending c
      then c\<lparr>timer_pending := False,
             killed := True,
             signals := signals c @ [''SIGTERM''],
             returned := reject (returned c) (Timeout (timeout c))\<rparr>
      else c)"
| "on_event c (Stdout_data d) = c\<lparr>stdout_var := stdout_var c @ d\<rparr>"
| "on_event c (Stderr_data d) = c\<lparr>stderr_var := stderr_var c @ d\<rparr>"
| "on_event c (Proc_close code) =
     (let c1 = c\<lparr>timer_pending := False\<rparr>
      in if \<not> killed c1
         then c1\<lparr>returned := resolve (returned c1)
                    \<lparr>exitCode = (case code of Some n \<Rightarrow> n | None \<Rightarrow> 0),
                     stdout = stdout_var c1,
                     stderr = stderr_var c1\<rparr>\<rparr>
         else c1)"
| "on_event c (Proc_error err) =
     c\<lparr>timer_pending := False, returned := reject (returned c) (SpawnError err)\<rparr>"

definition run_events :: "exec_call \<Rightarrow> proc_event list \<Rightarrow> exec_call" where
  "run_events c evs = foldl on_event c evs"

text \<open>Events that only deliver output, and the output a list of events delivers.\<close>

fun is_data :: "proc_event \<Rightarrow> bool" where
  "is_data (Stdout_data d) = True"
| "is_data (Stderr_data d) = True"
| "is_data ev = False"

fun stdout_of :: "proc_event list \<Rightarrow> string" where
  "stdout_of [] = []"
| "stdout_of (Stdout_data d # evs) = d @ stdout_of evs"
| "stdout_of (ev # evs) = stdout_of evs"

fun stderr_of :: "proc_event list \<Rightarrow> string" where
  "stderr_of [] = []"
| "stderr_of (Stderr_data d # evs) = d @ stderr_of evs"
| "stderr_of (ev # evs) = stderr_of evs"

text \<open>
  For the callers of \<open>exec\<close> in devices.ts a client is the function from the arguments and the
  target serial of a command to the way its promise settles.
\<close>

type_synonym executor = "string list \<Rightarrow> string option \<Rightarrow> exec_error + AdbResult"

definition shell :: "executor \<Rightarrow> string \<Rightarrow> string option \<Rightarrow> exec_error + AdbResult" where
  "shell client command sr = client [''shell'', command] sr"

section \<open>Devices (src/unnamed/part_003, devices.ts of the adb package)\<close>

text \<open>\<open>state\<close> is the string of the listing: the cast \<open>as DeviceState\<close> checks nothing.\<close>

record Device =
  serial :: string
  state :: string
  model :: "string option"
  product :: "string option"
  device :: "string option"
  transportId :: "string option"
  isEmulator :: bool

text \<open>\<open>split(/\s+/)\<close>: the pieces between the runs of white space.\<close>

function split_ws :: "string \<Rightarrow> string list" where
  "split_ws [] = [[]]"
| "split_ws (c # s) =
     (if is_ws c then [] # split_ws (dropWhile is_ws s)
      else (let r = split_ws s in (c # hd r) # tl r))"
  by pat_completeness auto
termination
  by (relation "measure length") (auto simp: less_Suc_eq_le length_dropWhile_le)

text \<open>
  The white-space separated tokens of a line, in the words of the specification: the
  maximal runs of characters that are not white space.
\<close>

function tokens :: "string \<Rightarrow> string list" where
  "tokens s =
     (let s' = dropWhile is_ws s
      in if s' = [] then []
         else takeWhile (\<lambda>c. \<not> is_ws c) s' # tokens (dropWhile (\<lambda>c. \<not> is_ws c) s'))"
  by pat_completeness auto
termination
proof (relation "measure length")
  show "wf (measure length)" by simp
next
  fix s s' :: string
  assume a: "s' = dropWhile is_ws s" "s' \<noteq> []"
  from a(2) obtain c r where s': "s' = c # r" by (cases s') simp_all
  with a have "\<not> is_ws c" by (metis hd_dropWhile list.sel(1))
  then have "length (dropWhile (\<lambda>c. \<not> is_ws c) s') \<le> length r"
    by (simp add: s' length_dropWhile_le)
  moreover have "length s' \<le> length s" by (simp add: a(1) length_dropWhile_le)
  ultimately show "(dropWhile (\<lambda>c. \<not> is_ws c) s', s) \<in> measure length"
    by (simp add: s')
qed

declare tokens.simps [simp del]

text \<open>The body of the loop over \<open>parts[2..]\<close>: \<open>const [key, value] = parts[i].split(":")\<close>.\<close>

definition add_prop :: "(string \<rightharpoonup> string) \<Rightarrow> string \<Rightarrow> (string \<rightharpoonup> string)" where
  "add_prop props part =
     (let kv = split_on CHR '':'' part;
          key = hd kv;
          val = (if 1 < length kv then Some (kv ! 1) else None)
      in (case val of
            Some v \<Rightarrow> if key \<noteq> [] \<and> v \<noteq> [] then props(key \<mapsto> v) else props
          | None \<Rightarrow> props))"

definition parseDeviceLine :: "string \<Rightarrow> Device option" where
  "parseDeviceLine line =
     (let parts = split_ws (trim line)
      in if length parts < 2 then None
         else
           (let sr = parts ! 0;
                st = parts ! 1;
                props = foldl add_prop Map.empty (drop 2 parts)
            in Some \<lparr>serial = sr,
                     state = st,
                     model = props ''model'',
                     product = props ''product'',
                     device = props ''device'',
                     transportId = props ''transport_id'',
                     isEmulator = (startsWith sr ''emulator-'' \<or> includes_str sr '':5555'')\<rparr>))"

text \<open>
  A serial that denotes the default wireless port, in the words of the specification: a
  serial has the form \<open>host:port\<close>, and the default port is 5555.
\<close>

definition denotes_default_port :: "string \<Rightarrow> bool" where
  "denotes_default_port sr = suffix '':5555'' sr"

text \<open>The loop of \<open>getDevices\<close> over the lines of the listing.\<close>

fun collect_devices :: "string list \<Rightarrow> Device list" where
  "collect_devices [] = []"
| "collect_devices (line # lines) =
     (if startsWith line ''List of devices'' \<or> trim line = [] then collect_devices lines
      else (case parseDeviceLine line of
              Some d \<Rightarrow> d # collect_devices lines
            | None \<Rightarrow> collect_devices lines))"

definition getDevices :: "executor \<Rightarrow> exec_error + Device list" where
  "getDevices client =
     (case client [''devices'', ''-l''] None of
        Inl err \<Rightarrow> Inl err
      | Inr result \<Rightarrow> Inr (collect_devices (split_on CHR 0x0A (stdout result))))"

text \<open>The expression of \<open>getDeviceProps\<close>: \<^verbatim>\<open>/\[([^\]]+)\]: \[([^\]]*)\]/g\<close>.\<close>

definition props_regex :: "item list" where
  "props_regex =
     [lit CHR ''['', Open 1, Plus Greedy (\<lambda>c. c \<noteq> CHR '']''), Close 1, lit CHR '']'',
      lit CHR '':'', lit CHR '' '',
      lit CHR ''['', Open 2, Star Greedy (\<lambda>c. c \<noteq> CHR '']''), Close 2, lit CHR '']'']"

text \<open>
  The loop \<open>while ((match = regex.exec(result.stdout)) !== null)\<close>: the next match is looked
  for from the end of the last one, at the first position where the expression matches.
\<close>

function scan_props :: "string \<Rightarrow> (string \<times> string) list" where
  "scan_props s =
     (case exec_at props_regex s of
        Some (g, rest) \<Rightarrow> (g 1, g 2) # scan_props rest
      | None \<Rightarrow> (case s of [] \<Rightarrow> [] | c # s' \<Rightarrow> scan_props s'))"
  by pat_completeness auto
termination
proof (relation "measure length")
  show "wf (measure length)" by simp
next
  fix s :: string and x g rest
  assume a: "exec_at props_regex s = Some x" "(g, rest) = x"
  have le: "length r \<le> length t" if "bt re t m = Some (h, r)" for re t m h r
    using that
  proof (induction re t m rule: bt.induct)
    case (13 p r' c s' m')
    then show ?case by (cases "bt (Star Greedy p # r') s' m'") (auto split: if_splits)
  next
    case (15 p r' c s' m')
    then show ?case by (cases "bt r' (c # s') m'") (auto split: if_splits)
  qed (auto split: if_splits)
  from a have "bt props_regex s no_groups = Some (g, rest)"
    by (simp add: exec_at_def)
  then obtain s' where "s = CHR ''['' # s'" and "length rest \<le> length s'"
    by (cases s) (auto simp: props_regex_def lit_def split: if_splits dest: le)
  then show "(rest, s) \<in> measure length" by simp
next
  fix s :: string and c s'
  assume "s = c # s'"
  then show "(s', s) \<in> measure length" by simp
qed

definition getDeviceProps :: "executor \<Rightarrow> string \<Rightarrow> exec_error + (string \<rightharpoonup> string)" where
  "getDeviceProps client sr =
     (case shell client ''getprop'' (Some sr) of
        Inl err \<Rightarrow> Inl err
      | Inr result \<Rightarrow>
          Inr (foldl (\<lambda>props (k, v). props(k \<mapsto> v)) Map.empty (scan_props (stdout result))))"

definition getDeviceName :: "executor \<Rightarrow> string \<Rightarrow> exec_error + string" where
  "getDeviceName client sr =
     (case getDeviceProps client sr of
        Inl err \<Rightarrow> Inl err
      | Inr props \<Rightarrow>
          Inr (case props ''ro.product.model'' of
                 Some v \<Rightarrow> v
               | None \<Rightarrow> (case props ''ro.product.name'' of Some v \<Rightarrow> v | None \<Rightarrow> sr)))"

definition getApiLevel :: "executor \<Rightarrow> string \<Rightarrow> exec_error + number" where
  "getApiLevel client sr =
     (case shell client ''getprop ro.build.version.sdk'' (Some sr) of
        Inl err \<Rightarrow> Inl err
      | Inr result \<Rightarrow> Inr (parseInt (trim (stdout result))))"

definition getAndroidVersion :: "executor \<Rightarrow> string \<Rightarrow> exec_error + string" where
  "getAndroidVersion client sr =
     (case shell client ''getprop ro.build.version.release'' (Some sr) of
        Inl err \<Rightarrow> Inl err
      | Inr result \<Rightarrow> Inr (trim (stdout result)))"

section \<open>The device part of AdbService (src/apps/extension/src/services/adb.ts)\<close>

record DeviceInfo = Device +
  name :: string
  apiLevel :: number
  androidVersion :: string

text \<open>The record pushed for a device that is not ready, and in the \<open>catch\<close> branch.\<close>

definition basic_info :: "Device \<Rightarrow> DeviceInfo" where
  "basic_info d =
     Device.extend d
       (DeviceInfo.fields (case model d of Some m \<Rightarrow> m | None \<Rightarrow> serial d) (Num 0) ''Unknown'')"

text \<open>
  The body of the loop of \<open>AdbService.getDevices\<close> for one device: the commands it
  starts, in order, and the record it pushes. \<open>Promise.all\<close> starts the three queries before
  it waits for any, and rejects when one of them rejects.
\<close>

definition device_info :: "executor \<Rightarrow> Device \<Rightarrow> (string list \<times> string option) list \<times> DeviceInfo" where
  "device_info client d =
     (if state d \<noteq> ''device'' then ([], basic_info d)
      else
        (let started = [([''shell'', ''getprop''], Some (serial d)),
                        ([''shell'', ''getprop ro.build.version.sdk''], Some (serial d)),
                        ([''shell'', ''getprop ro.build.version.release''], Some (serial d))]
         in (case (getDeviceName client (serial d),
                   getApiLevel client (serial d),
                   getAndroidVersion client (serial d)) of
               (Inr nm, Inr api, Inr ver) \<Rightarrow>
                 (started, Device.extend d (DeviceInfo.fields nm api ver))
             | _ \<Rightarrow> (started, basic_info d))))"

definition AdbService_getDevices ::
  "executor \<Rightarrow> exec_error + ((string list \<times> string option) list \<times> DeviceInfo list)" where
  "AdbService_getDevices client =
     (case getDevices client of
        Inl err \<Rightarrow> Inl err
      | Inr devices \<Rightarrow>
          (let rs = map (device_info client) devices
           in Inr (([''devices'', ''-l''], None) # concat (map fst rs), map snd rs)))"

section \<open>Sample data\<close>

text \<open>An entry with the given level, tag and message, used in the examples below.\<close>

definition sample_entry :: "LogLevel \<Rightarrow> string \<Rightarrow> string \<Rightarrow> LogcatEntry" where
  "sample_entry l t msg =
     \<lparr>timestamp = ''2026-01-10T12:34:56.789'', pid = Num 1234, tid = Num 5678,
      level = l, tag = t, message = msg\<rparr>"

definition sample_stream :: LogcatStream where
  "sample_stream =
     \<lparr>process = Some [''logcat'', ''-v'', ''threadtime''], adbPath = ''adb'',
      stream_serial = None, stream_minLevel = V, tags = [], buffer = []\<rparr>"

text \<open>
  A client whose listing shows one ready device. \<open>getprop\<close> answers with the model; the
  two version queries end with exit code 1, nothing on stdout and a message on stderr, as
  when the device has gone offline since the listing. No promise is rejected.
\<close>

definition offline_client :: executor where
  "offline_client args sr =
     (if args = [''devices'', ''-l'']
      then Inr \<lparr>exitCode = 0,
                stdout = ''List of devices attached\<newline>R58M device usb:1 model:Pixel_7\<newline>\<newline>'',
                stderr = []\<rparr>
      else if args = [''shell'', ''getprop'']
      then Inr \<lparr>exitCode = 0, stdout = ''[ro.product.model]: [Pixel 7]\<newline>'', stderr = []\<rparr>
      else Inr \<lparr>exitCode = 1, stdout = [], stderr = ''adb: device offline''\<rparr>)"

definition sample_provider :: "nat \<Rightarrow> string option \<Rightarrow> LogLevel \<Rightarrow> LogcatTreeProvider" where
  "sample_provider cap flt l =
     \<lparr>entries = [], maxEntries = cap, filter_str = flt, minLevel = l, outputChannel = []\<rparr>"

section \<open>Facts about the string helpers\<close>

lemma startsWith_prefix: "startsWith s p = prefix p s"
  by (induction s p rule: startsWith.induct) auto

lemma includes_sublist: "includes_str s sub = sublist sub s"
proof (induction s)
  case Nil
  then show ?case by (simp add: startsWith_prefix)
next
  case (Cons c s)
  then show ?case by (simp add: startsWith_prefix sublist_Cons_right)
qed

lemma indexOf_levels: "indexOf levels l = int (LOG_LEVEL_PRIORITY l)"
  by (cases l) (simp_all add: levels_def)

section \<open>The entry buffer of the provider\<close>

lemma addEntry_retained:
  assumes "spec_retained (minLevel p) (filter_str p) e"
  shows "addEntry p e =
           p\<lparr>entries := (if length (entries p) < maxEntries p then entries p @ [e]
                          else shift (entries p @ [e])),
             outputChannel := outputChannel p @ [e]\<rparr>"
proof -
  have lv: "\<not> indexOf levels (level e) < indexOf levels (minLevel p)"
    using assms by (simp add: spec_retained_def indexOf_levels)
  have flt: "\<not> (case filter_str p of
                 None \<Rightarrow> False
               | Some f \<Rightarrow> f \<noteq> [] \<and>
                   \<not> includes_str (toLowerCase (tag e)) (toLowerCase f) \<and>
                   \<not> includes_str (toLowerCase (message e)) (toLowerCase f))"
    using assms by (auto simp: spec_retained_def includes_sublist split: option.splits)
  have "length (entries p @ [e]) > maxEntries p \<longleftrightarrow> \<not> length (entries p) < maxEntries p"
    by auto
  with lv flt show ?thesis
    unfolding addEntry_def Let_def by (simp only: if_False) simp
qed

lemma addEntry_dropped:
  assumes "\<not> spec_retained (minLevel p) (filter_str p) e"
  shows "addEntry p e = p"
proof (cases "indexOf levels (level e) < indexOf levels (minLevel p)")
  case True
  then show ?thesis by (simp add: addEntry_def)
next
  case False
  then have "LOG_LEVEL_PRIORITY (minLevel p) \<le> LOG_LEVEL_PRIORITY (level e)"
    by (simp add: indexOf_levels)
  with assms obtain f where f: "filter_str p = Some f"
    and no: "\<not> sublist (toLowerCase f) (toLowerCase (tag e))"
            "\<not> sublist (toLowerCase f) (toLowerCase (message e))"
    by (auto simp: spec_retained_def split: option.splits)
  from no(1) have "f \<noteq> []" by (auto simp: toLowerCase_def)
  with f no show ?thesis by (simp add: addEntry_def includes_sublist)
qed

lemma addEntry_config:
  "maxEntries (addEntry p e) = maxEntries p \<and> minLevel (addEntry p e) = minLevel p \<and>
   filter_str (addEntry p e) = filter_str p"
  by (simp add: addEntry_def Let_def)

lemma addEntries_config:
  "maxEntries (addEntries p es) = maxEntries p \<and> minLevel (addEntries p es) = minLevel p \<and>
   filter_str (addEntries p es) = filter_str p"
  unfolding addEntries_def by (induction es arbitrary: p) (simp_all add: addEntry_config)

lemma addEntries_snoc: "addEntries p (es @ [e]) = addEntry (addEntries p es) e"
  by (simp add: addEntries_def)

lemma addEntry_length:
  "length (entries p) \<le> maxEntries p \<Longrightarrow> length (entries (addEntry p e)) \<le> maxEntries p"
  by (cases "entries p") (auto simp: addEntry_def Let_def)

lemma addEntries_length:
  "length (entries p) \<le> maxEntries p \<Longrightarrow> length (entries (addEntries p es)) \<le> maxEntries p"
proof (induction es rule: rev_induct)
  case Nil
  then show ?case by (simp add: addEntries_def)
next
  case (snoc e es)
  then have "length (entries (addEntries p es)) \<le> maxEntries (addEntries p es)"
    by (simp add: addEntries_config)
  then show ?case
    using addEntry_length [of "addEntries p es" e]
    by (simp add: addEntries_snoc addEntries_config)
qed

lemma shift_drop_snoc:
  assumes "n \<le> length es"
  shows "shift (drop (length es - n) es @ [e]) = drop (Suc (length es) - n) (es @ [e])"
proof (cases n)
  case 0
  then show ?thesis by simp
next
  case (Suc k)
  with assms have "length es - n < length es" by simp
  then obtain x xs where d: "drop (length es - n) es = x # xs"
    by (cases "drop (length es - n) es") simp_all
  then have "xs = drop (Suc (length es - n)) es"
    by (metis drop_Suc list.sel(3) tl_drop)
  moreover have "Suc (length es) - n = Suc (length es - n)"
    using assms by simp
  ultimately show ?thesis using d Suc assms by simp
qed

lemma addEntries_last:
  assumes "entries p = []" and "\<forall>e \<in> set es. spec_retained (minLevel p) (filter_str p) e"
  shows "entries (addEntries p es) = drop (length es - maxEntries p) es"
  using assms(2)
proof (induction es rule: rev_induct)
  case Nil
  then show ?case using assms(1) by (simp add: addEntries_def)
next
  case (snoc e es)
  let ?q = "addEntries p es"
  have IH: "entries ?q = drop (length es - maxEntries p) es" using snoc by simp
  have ret: "spec_retained (minLevel ?q) (filter_str ?q) e"
    using snoc.prems by (simp add: addEntries_config)
  have len: "length (entries ?q) = min (length es) (maxEntries p)"
    by (simp add: IH)
  show ?case
  proof (cases "length es < maxEntries p")
    case True
    then show ?thesis
      using addEntry_retained [OF ret] IH len
      by (simp add: addEntries_snoc addEntries_config)
  next
    case False
    then have "entries (addEntry ?q e) = shift (drop (length es - maxEntries p) es @ [e])"
      using addEntry_retained [OF ret] IH len
      by (simp add: addEntries_config)
    also have "\<dots> = drop (Suc (length es) - maxEntries p) (es @ [e])"
      using False by (simp add: shift_drop_snoc)
    finally show ?thesis by (simp add: addEntries_snoc)
  qed
qed

lemma addEntry_full:
  assumes "spec_retained (minLevel q) (filter_str q) e"
    and "length (entries q) = maxEntries q" and "0 < maxEntries q"
  shows "entries (addEntry q e) = tl (entries q) @ [e]"
proof -
  from assms(2,3) obtain x xs where "entries q = x # xs"
    by (cases "entries q") simp_all
  then show ?thesis
    using addEntry_retained [OF assms(1)] assms(2) by simp
qed

lemma start_fresh:
  "process strm = None \<Longrightarrow> \<exists>args. start strm = Inr (strm\<lparr>process := Some args\<rparr>, [Ev_start])"
  unfolding start_def Let_def by (simp only: if_False simp_thms) blast

lemma startLogcat_stream:
  "\<exists>svc' args. startLogcat path svc sr ts = Inr svc' \<and>
     logcatStream svc' =
       Some ((new_LogcatStream
               \<lparr>opt_adbPath = Some path, opt_serial = sr, opt_minLevel = None, opt_tags = ts\<rparr>)
             \<lparr>process := Some args\<rparr>)"
proof -
  let ?fresh = "new_LogcatStream
               \<lparr>opt_adbPath = Some path, opt_serial = sr, opt_minLevel = None, opt_tags = ts\<rparr>"
  have "process ?fresh = None" by (simp add: new_LogcatStream_def)
  from start_fresh [OF this] obtain args
    where "start ?fresh = Inr (?fresh\<lparr>process := Some args\<rparr>, [Ev_start])" ..
  then have "\<exists>svc'. startLogcat path svc sr ts = Inr svc' \<and>
     logcatStream svc' = Some (?fresh\<lparr>process := Some args\<rparr>)"
    unfolding startLogcat_def Let_def by simp
  then show ?thesis by blast
qed

text \<open>
  C2. Entry buffer, bounded first-in first-out. A provider starts with an empty list of
  entries. Whatever entries arrive, the list never holds more than \<open>maxEntries\<close> entries.
  When all the entries that arrived are accepted by the filters, the list holds the last
  \<open>maxEntries\<close> of them in arrival order (all of them while there are no more than that).
  An accepted entry that arrives at a full list removes exactly the oldest entry.
\<close>

theorem C2_entry_buffer_bounded_fifo:
  assumes "entries p = []"
  shows "length (entries (addEntries p es)) \<le> maxEntries p \<and>
         ((\<forall>e \<in> set es. spec_retained (minLevel p) (filter_str p) e) \<longrightarrow>
            entries (addEntries p es) = drop (length es - maxEntries p) es \<and>
            (maxEntries p < length es \<longrightarrow> length (entries (addEntries p es)) = maxEntries p)) \<and>
         (\<forall>q e. spec_retained (minLevel q) (filter_str q) e \<and>
                 length (entries q) = maxEntries q \<and> 0 < maxEntries q \<longrightarrow>
                 entries (addEntry q e) = tl (entries q) @ [e]) \<and>
         (\<forall>q e. length (entries q) \<le> maxEntries q \<longrightarrow>
                 length (entries (addEntry q e)) \<le> maxEntries q)"
proof -
  have a: "length (entries (addEntries p es)) \<le> maxEntries p"
    using assms addEntries_length [of p es] by simp
  have b: "entries (addEntries p es) = drop (length es - maxEntries p) es"
    if "\<forall>e \<in> set es. spec_retained (minLevel p) (filter_str p) e"
    using addEntries_last [OF assms that] .
  have c: "length (entries (addEntries p es)) = maxEntries p"
    if "\<forall>e \<in> set es. spec_retained (minLevel p) (filter_str p) e" "maxEntries p < length es"
    using b [OF that(1)] that(2) by simp
  show ?thesis
    using a b c addEntry_full addEntry_length by blast
qed

theorem C2_entry_buffer_bounded_fifo_witness:
  "entries (sample_provider 2 None V) = [] \<and>
   spec_retained V None (sample_entry D ''A'' ''one'') \<and>
   spec_retained V None (sample_entry I ''B'' ''two'') \<and>
   spec_retained V None (sample_entry W ''C'' ''three'') \<and>
   entries (addEntries (sample_provider 2 None V)
      [sample_entry D ''A'' ''one'', sample_entry I ''B'' ''two'', sample_entry W ''C'' ''three''])
     = [sample_entry I ''B'' ''two'', sample_entry W ''C'' ''three'']"
proof -
  let ?p = "sample_provider 2 None V"
  let ?es = "[sample_entry D ''A'' ''one'', sample_entry I ''B'' ''two'', sample_entry W ''C'' ''three'']"
  have e: "entries ?p = []" by (simp add: sample_provider_def)
  have r: "\<forall>e \<in> set ?es. spec_retained (minLevel ?p) (filter_str ?p) e"
    by (simp add: sample_provider_def sample_entry_def spec_retained_def)
  have m: "maxEntries ?p = 2" by (simp add: sample_provider_def)
  from C2_entry_buffer_bounded_fifo [OF e, of ?es] r
  have "entries (addEntries ?p ?es) = drop (length ?es - maxEntries ?p) ?es" by blast
  with e r m show ?thesis by (simp add: sample_provider_def)
qed

text \<open>
  C6. Filter pipeline. \<open>addEntry\<close> changes the provider exactly when the entry passes both
  filters: its level is at least the configured minimum on the scale V, D, I, W, E, F, S, and
  no text filter is configured or the lower-case tag or the lower-case message contains the
  lower-case filter. An entry that passes is pushed onto the entries (the oldest entry leaves
  when the list is over capacity) and written to the output channel; an entry that fails
  either filter leaves the provider as it was. The stream that the service starts has the
  minimum level V and lets every parsed entry through to the provider.
\<close>

theorem C6_filter_pipeline:
  "(spec_retained (minLevel p) (filter_str p) e \<longleftrightarrow> addEntry p e \<noteq> p) \<and>
   (spec_retained (minLevel p) (filter_str p) e \<longrightarrow>
      entries (addEntry p e) =
        (if length (entries p) < maxEntries p then entries p @ [e] else shift (entries p @ [e])) \<and>
      outputChannel (addEntry p e) = outputChannel p @ [e]) \<and>
   (\<not> spec_retained (minLevel p) (filter_str p) e \<longrightarrow>
      entries (addEntry p e) = entries p \<and> outputChannel (addEntry p e) = outputChannel p) \<and>
   map LOG_LEVEL_PRIORITY [V, D, I, W, E, F, S] = [0, 1, 2, 3, 4, 5, 6] \<and>
   (startLogcat path svc sr ts = Inr svc' \<longrightarrow>
      (\<exists>strm. logcatStream svc' = Some strm \<and> shouldEmit strm e))"
proof -
  have keep: "addEntry p e \<noteq> p" if r: "spec_retained (minLevel p) (filter_str p) e"
  proof
    assume "addEntry p e = p"
    then have "outputChannel (addEntry p e) = outputChannel p" by simp
    then show False using addEntry_retained [OF r] by simp
  qed
  have drop: "addEntry p e = p" if "\<not> spec_retained (minLevel p) (filter_str p) e"
    using addEntry_dropped [OF that] .
  have pushed: "entries (addEntry p e) =
        (if length (entries p) < maxEntries p then entries p @ [e] else shift (entries p @ [e])) \<and>
      outputChannel (addEntry p e) = outputChannel p @ [e]"
    if r: "spec_retained (minLevel p) (filter_str p) e"
    using addEntry_retained [OF r] by simp
  have strm: "\<exists>strm. logcatStream svc' = Some strm \<and> shouldEmit strm e"
    if "startLogcat path svc sr ts = Inr svc'"
  proof -
    from startLogcat_stream [of path svc sr ts] that
    obtain args where "logcatStream svc' =
        Some ((new_LogcatStream
                \<lparr>opt_adbPath = Some path, opt_serial = sr, opt_minLevel = None, opt_tags = ts\<rparr>)
              \<lparr>process := Some args\<rparr>)"
      by auto
    then show ?thesis by (simp add: new_LogcatStream_def shouldEmit_def)
  qed
  have scale: "map LOG_LEVEL_PRIORITY [V, D, I, W, E, F, S] = [0, 1, 2, 3, 4, 5, 6]"
    by simp
  show ?thesis
    using keep drop pushed strm scale by metis
qed

theorem C6_filter_pipeline_witness:
  "spec_retained W (Some ''NET'') (sample_entry E ''Network'' ''timeout'') \<and>
   entries (addEntry (sample_provider 10 (Some ''NET'') W) (sample_entry E ''Network'' ''timeout''))
     = [sample_entry E ''Network'' ''timeout''] \<and>
   \<not> spec_retained W (Some ''NET'') (sample_entry I ''Network'' ''timeout'') \<and>
   entries (addEntry (sample_provider 10 (Some ''NET'') W) (sample_entry I ''Network'' ''timeout'')) = [] \<and>
   \<not> spec_retained W (Some ''NET'') (sample_entry E ''Audio'' ''underrun'') \<and>
   entries (addEntry (sample_provider 10 (Some ''NET'') W) (sample_entry E ''Audio'' ''underrun'')) = []"
proof -
  let ?p = "sample_provider 10 (Some ''NET'') W"
  have cfg: "minLevel ?p = W" "filter_str ?p = Some ''NET''" "entries ?p = []" "maxEntries ?p = 10"
    by (simp_all add: sample_provider_def)
  have r1: "spec_retained W (Some ''NET'') (sample_entry E ''Network'' ''timeout'')"
    unfolding spec_retained_def includes_sublist [symmetric] by code_simp
  have r2: "\<not> spec_retained W (Some ''NET'') (sample_entry I ''Network'' ''timeout'')"
    by (simp add: spec_retained_def sample_entry_def)
  have r3: "\<not> spec_retained W (Some ''NET'') (sample_entry E ''Audio'' ''underrun'')"
    unfolding spec_retained_def includes_sublist [symmetric] by code_simp
  show ?thesis
    using C6_filter_pipeline [of ?p "sample_entry E ''Network'' ''timeout''"]
          C6_filter_pipeline [of ?p "sample_entry I ''Network'' ''timeout''"]
          C6_filter_pipeline [of ?p "sample_entry E ''Audio'' ''underrun''"]
          r1 r2 r3
    by (simp add: cfg)
qed

section \<open>One-shot commands\<close>

lemma run_events_append: "run_events c (xs @ ys) = run_events (run_events c xs) ys"
  by (simp add: run_events_def)

lemma run_events_data:
  "list_all is_data evs \<Longrightarrow>
   run_events c evs =
     c\<lparr>stdout_var := stdout_var c @ stdout_of evs, stderr_var := stderr_var c @ stderr_of evs\<rparr>"
proof (induction evs arbitrary: c)
  case Nil
  then show ?case by (simp add: run_events_def)
next
  case (Cons ev evs)
  then show ?case by (cases ev) (simp_all add: run_events_def)
qed






text \<open>
  C9. A close with a null exit code. When the child has only produced output and then
  closes with the exit code \<open>null\<close> (as after a kill by a signal from outside), the timer
  not having fired, the promise resolves with \<open>exitCode = 0\<close> and the output collected:
  the same result as for a close with the exit code 0.
\<close>

theorem C9_null_exit_code_resolves_zero:
  assumes "list_all is_data pre"
  shows "returned (run_events (exec client args options) (pre @ [Proc_close None])) =
           Resolved \<lparr>exitCode = 0, stdout = stdout_of pre, stderr = stderr_of pre\<rparr> \<and>
         returned (run_events (exec client args options) (pre @ [Proc_close None])) =
           returned (run_events (exec client args options) (pre @ [Proc_close (Some 0)]))"
proof -
  let ?c0 = "exec client args options"
  let ?c1 = "run_events ?c0 pre"
  have c1: "?c1 = ?c0\<lparr>stdout_var := stdout_var ?c0 @ stdout_of pre,
                        stderr_var := stderr_var ?c0 @ stderr_of pre\<rparr>"
    using run_events_data [OF assms] .
  have p1: "returned ?c1 = Pending" "\<not> killed ?c1" "stdout_var ?c1 = stdout_of pre"
    "stderr_var ?c1 = stderr_of pre"
    by (simp_all add: c1) (simp_all add: exec_def)
  have "run_events ?c0 (pre @ [Proc_close code]) = on_event ?c1 (Proc_close code)" for code
    by (simp add: run_events_def)
  then show ?thesis using p1 by (simp add: Let_def)
qed

theorem C9_null_exit_code_resolves_zero_witness:
  "list_all is_data [Stdout_data ''ab'', Stderr_data ''x'', Stdout_data ''c''] \<and>
   returned (run_events
      (exec (new_AdbClient \<lparr>ao_adbPath = None, ao_timeout = None\<rparr>) [''version'']
         \<lparr>o_serial = None, o_timeout = None\<rparr>)
      ([Stdout_data ''ab'', Stderr_data ''x'', Stdout_data ''c''] @ [Proc_close None]))
     = Resolved \<lparr>exitCode = 0, stdout = ''abc'', stderr = ''x''\<rparr>"
proof -
  have d: "list_all is_data [Stdout_data ''ab'', Stderr_data ''x'', Stdout_data ''c'']" by simp
  from C9_null_exit_code_resolves_zero [OF d, of "new_AdbClient \<lparr>ao_adbPath = None, ao_timeout = None\<rparr>"
      "[''version'']" "\<lparr>o_serial = None, o_timeout = None\<rparr>"]
  show ?thesis using d by simp
qed

section \<open>The data handler of the stream\<close>

lemma split_on_nonempty: "split_on d s \<noteq> []"
  by (induction s) (simp_all add: Let_def)

lemma split_on_free: "d \<notin> set x \<Longrightarrow> split_on d x = [x]"
  by (induction x) (auto simp: Let_def)

lemma split_on_sep: "d \<notin> set x \<Longrightarrow> split_on d (x @ d # y) = x # split_on d y"
  by (induction x) (auto simp: Let_def)

lemma split_on_lines:
  "\<forall>l \<in> set ls. d \<notin> set l \<Longrightarrow>
   split_on d (concat (map (\<lambda>l. l @ [d]) ls) @ t) = ls @ split_on d t"
  by (induction ls) (simp_all add: split_on_sep)

lemma split_on_pieces_free: "l \<in> set (split_on d s) \<Longrightarrow> d \<notin> set l"
proof (induction s arbitrary: l)
  case Nil
  then show ?case by simp
next
  case (Cons c s)
  show ?case
  proof (cases "c = d")
    case True
    with Cons show ?thesis by auto
  next
    case False
    obtain x xs where r: "split_on d s = x # xs"
      using split_on_nonempty [of d s] by (cases "split_on d s") auto
    with Cons False show ?thesis by (auto simp: Let_def)
  qed
qed

lemma split_on_join:
  "concat (map (\<lambda>l. l @ [d]) (butlast (split_on d s))) @ last (split_on d s) = s"
proof (induction s)
  case Nil
  then show ?case by simp
next
  case (Cons c s)
  obtain x xs where r: "split_on d s = x # xs"
    using split_on_nonempty [of d s] by (cases "split_on d s") auto
  show ?case
  proof (cases "c = d")
    case True
    with Cons r show ?thesis by simp
  next
    case False
    with Cons r show ?thesis by (cases xs) (simp_all add: Let_def)
  qed
qed

lemma split_on_append:
  "split_on d (a @ b) = butlast (split_on d a) @ split_on d (last (split_on d a) @ b)"
proof -
  let ?ls = "butlast (split_on d a)" and ?r = "last (split_on d a)"
  have free: "\<forall>l \<in> set ?ls. d \<notin> set l"
    using split_on_pieces_free [of _ d a] by (meson in_set_butlastD)
  have eq: "a @ b = concat (map (\<lambda>l. l @ [d]) ?ls) @ (?r @ b)"
    using split_on_join [of d a] by simp
  show ?thesis
    by (subst eq) (rule split_on_lines [OF free])
qed

lemma emit_lines_buffer: "emit_lines yr (strm\<lparr>buffer := b\<rparr>) ls = emit_lines yr strm ls"
  by (induction ls) (simp_all add: shouldEmit_def split: option.splits)

lemma emit_lines_append: "emit_lines yr strm (xs @ ys) = emit_lines yr strm xs @ emit_lines yr strm ys"
  by (induction xs) (simp_all split: option.splits)

lemma handleData_eq:
  "handleData yr strm data =
     (strm\<lparr>buffer := last (split_on CHR 0x0A (buffer strm @ data))\<rparr>,
      emit_lines yr strm (butlast (split_on CHR 0x0A (buffer strm @ data))))"
  by (simp add: handleData_def Let_def split_on_nonempty)

lemma handleChunks_concat:
  assumes "CHR 0x0A \<notin> set (buffer strm)"
  shows "handleChunks yr strm chunks =
     (strm\<lparr>buffer := last (split_on CHR 0x0A (buffer strm @ concat chunks))\<rparr>,
      emit_lines yr strm (butlast (split_on CHR 0x0A (buffer strm @ concat chunks))))"
  using assms
proof (induction chunks arbitrary: strm)
  case Nil
  then show ?case by (simp add: split_on_free)
next
  case (Cons data chunks)
  let ?nl = "CHR 0x0A"
  let ?s1 = "strm\<lparr>buffer := last (split_on ?nl (buffer strm @ data))\<rparr>"
  have sp: "split_on ?nl (buffer strm @ data @ concat chunks) =
        butlast (split_on ?nl (buffer strm @ data)) @
        split_on ?nl (last (split_on ?nl (buffer strm @ data)) @ concat chunks)"
    using split_on_append [of ?nl "buffer strm @ data" "concat chunks"] by simp
  have ne: "split_on ?nl (last (split_on ?nl (buffer strm @ data)) @ concat chunks) \<noteq> []"
    by (rule split_on_nonempty)
  have "?nl \<notin> set (buffer ?s1)"
    using split_on_pieces_free [of "last (split_on ?nl (buffer strm @ data))" ?nl "buffer strm @ data"]
          split_on_nonempty [of ?nl "buffer strm @ data"]
    by simp
  from Cons.IH [OF this] show ?case
    by (simp add: handleData_eq sp ne butlast_append emit_lines_buffer emit_lines_append)
qed




text \<open>
  C4. Session isolation on restart, as stated, fails for a stream instance: \<open>stop\<close> and
  \<open>start\<close> do not touch the buffer. Below, a running stream receives a chunk without a line
  feed, is stopped and started again, and the first line of the new session is parsed
  together with the fragment of the old one.
\<close>

theorem C4_restart_keeps_fragment_counterexample:
  "handleData ''2026'' sample_stream ''01-10 12:34:56.789  1234  5678 D Old: left'' =
     (sample_stream\<lparr>buffer := ''01-10 12:34:56.789  1234  5678 D Old: left''\<rparr>, []) \<and>
   start (stop (sample_stream\<lparr>buffer := ''01-10 12:34:56.789  1234  5678 D Old: left''\<rparr>)) =
     Inr (sample_stream\<lparr>buffer := ''01-10 12:34:56.789  1234  5678 D Old: left''\<rparr>, [Ev_start]) \<and>
   handleData ''2026'' (sample_stream\<lparr>buffer := ''01-10 12:34:56.789  1234  5678 D Old: left''\<rparr>)
       ''01-11 08:00:00.000    42    42 I New: fresh\<newline>'' =
     (sample_stream\<lparr>buffer := []\<rparr>,
      [Ev_entry \<lparr>timestamp = ''2026-01-10T12:34:56.789'', pid = Num 1234, tid = Num 5678,
                 level = D, tag = ''Old'',
                 message = ''left01-11 08:00:00.000    42    42 I New: fresh''\<rparr>])"
proof -
  have a: "handleData ''2026'' sample_stream ''01-10 12:34:56.789  1234  5678 D Old: left'' =
     (sample_stream\<lparr>buffer := ''01-10 12:34:56.789  1234  5678 D Old: left''\<rparr>, [])"
    by (simp add: handleData_def sample_stream_def Let_def)
  have b: "start (stop (sample_stream\<lparr>buffer := ''01-10 12:34:56.789  1234  5678 D Old: left''\<rparr>)) =
     Inr (sample_stream\<lparr>buffer := ''01-10 12:34:56.789  1234  5678 D Old: left''\<rparr>, [Ev_start])"
    by (simp add: start_def stop_def sample_stream_def)
  have c: "handleData ''2026'' (sample_stream\<lparr>buffer := ''01-10 12:34:56.789  1234  5678 D Old: left''\<rparr>)
       ''01-11 08:00:00.000    42    42 I New: fresh\<newline>'' =
     (sample_stream\<lparr>buffer := []\<rparr>,
      [Ev_entry \<lparr>timestamp = ''2026-01-10T12:34:56.789'', pid = Num 1234, tid = Num 5678,
                 level = D, tag = ''Old'',
                 message = ''left01-11 08:00:00.000    42    42 I New: fresh''\<rparr>])"
    by code_simp
  from a b c show ?thesis by blast
qed

text \<open>
  C4, amended. A newly constructed stream has an empty buffer, and \<open>startLogcat\<close> of the
  service constructs a new stream for every session, whatever stream the service held
  before. The session it starts is running, begins with an empty buffer, and what it
  emits is determined by its own chunks alone.
\<close>

theorem C4_fresh_stream_per_session:
  "buffer (new_LogcatStream options) = [] \<and>
   (\<exists>svc' strm. startLogcat path svc sr ts = Inr svc' \<and> logcatStream svc' = Some strm \<and>
      isRunning strm \<and> buffer strm = [] \<and>
      (\<forall>yr chunks. handleChunks yr strm chunks =
         (strm\<lparr>buffer := last (split_on CHR 0x0A (concat chunks))\<rparr>,
          emit_lines yr strm (butlast (split_on CHR 0x0A (concat chunks))))))"
proof -
  let ?fresh = "new_LogcatStream
               \<lparr>opt_adbPath = Some path, opt_serial = sr, opt_minLevel = None, opt_tags = ts\<rparr>"
  from startLogcat_stream [of path svc sr ts] obtain svc' args
    where s: "startLogcat path svc sr ts = Inr svc'"
      and l: "logcatStream svc' = Some (?fresh\<lparr>process := Some args\<rparr>)"
    by blast
  let ?strm = "?fresh\<lparr>process := Some args\<rparr>"
  have b: "buffer ?strm = []" by (simp add: new_LogcatStream_def)
  then have nl: "CHR 0x0A \<notin> set (buffer ?strm)" by simp
  have r: "isRunning ?strm" by (simp add: isRunning_def)
  have h: "handleChunks yr ?strm chunks =
         (?strm\<lparr>buffer := last (split_on CHR 0x0A (concat chunks))\<rparr>,
          emit_lines yr ?strm (butlast (split_on CHR 0x0A (concat chunks))))" for yr chunks
    using handleChunks_concat [OF nl, of yr chunks] b by simp
  have "buffer (new_LogcatStream options) = []" by (simp add: new_LogcatStream_def)
  with s l b r h show ?thesis by blast
qed

section \<open>The device listing\<close>

lemma tokens_unfold:
  "tokens s =
     (if dropWhile is_ws s = [] then []
      else takeWhile (\<lambda>c. \<not> is_ws c) (dropWhile is_ws s) #
           tokens (dropWhile (\<lambda>c. \<not> is_ws c) (dropWhile is_ws s)))"
  by (subst tokens.simps) (simp only: Let_def)

lemma tokens_Nil: "tokens [] = []"
  by (subst tokens_unfold) simp

lemma tokens_skip_ws: "tokens (dropWhile is_ws s) = tokens s"
  by (subst (1 2) tokens_unfold) (simp only: dropWhile_idem)

lemma dropWhile_snoc_ws:
  "is_ws c \<Longrightarrow> dropWhile is_ws (a @ [c]) = (if dropWhile is_ws a = [] then [] else dropWhile is_ws a @ [c])"
  by (induction a) simp_all

lemma tokens_snoc_ws: "is_ws c \<Longrightarrow> tokens (a @ [c]) = tokens a"
proof (induction a rule: tokens.induct)
  case (1 s)
  let ?s' = "dropWhile is_ws s"
  let ?P = "\<lambda>c. \<not> is_ws c"
  have dw: "dropWhile is_ws (s @ [c]) = (if ?s' = [] then [] else ?s' @ [c])"
    using dropWhile_snoc_ws [OF 1(2)] .
  show ?case
  proof (cases "?s' = []")
    case True
    have "tokens (s @ [c]) = []"
      by (subst tokens_unfold) (simp only: dw True if_True simp_thms)
    moreover have "tokens s = []"
      by (subst tokens_unfold) (simp only: True if_True simp_thms)
    ultimately show ?thesis by simp
  next
    case False
    have tk: "takeWhile ?P (?s' @ [c]) = takeWhile ?P ?s'"
    proof (cases "\<forall>x \<in> set ?s'. \<not> is_ws x")
      case True
      then have e: "takeWhile ?P ?s' = ?s'" by (metis takeWhile_eq_all_conv)
      have "takeWhile ?P (?s' @ [c]) = ?s'"
        using True 1(2) by (simp add: takeWhile_append)
      with e show ?thesis by (simp only:)
    next
      case False
      then show ?thesis by (simp only: takeWhile_append if_False)
    qed
    have dr: "dropWhile ?P (?s' @ [c]) = dropWhile ?P ?s' @ [c]"
      using 1(2) by (simp add: dropWhile_append)
    have IH: "tokens (dropWhile ?P ?s' @ [c]) = tokens (dropWhile ?P ?s')"
      using 1(1) [OF refl False 1(2)] .
    have ne: "?s' @ [c] \<noteq> []" by simp
    have "tokens (s @ [c]) = takeWhile ?P (?s' @ [c]) # tokens (dropWhile ?P (?s' @ [c]))"
      by (subst tokens_unfold) (simp only: dw False ne if_False simp_thms)
    moreover have "tokens s = takeWhile ?P ?s' # tokens (dropWhile ?P ?s')"
      by (subst tokens_unfold) (simp only: False if_False simp_thms)
    ultimately show ?thesis by (simp only: tk dr IH)
  qed
qed

lemma tokens_rstrip: "tokens (rev (dropWhile is_ws (rev s))) = tokens s"
  by (induction s rule: rev_induct) (simp_all add: tokens_snoc_ws)

lemma tokens_trim: "tokens (trim s) = tokens s"
  by (simp add: trim_def tokens_rstrip tokens_skip_ws)

lemma split_ws_word:
  "\<forall>c \<in> set t. \<not> is_ws c \<Longrightarrow> split_ws (t @ r) = (t @ hd (split_ws r)) # tl (split_ws r)"
proof (induction t)
  case Nil
  have "split_ws r \<noteq> []" by (cases r) (simp_all add: Let_def)
  then show ?case by simp
next
  case (Cons c t)
  then show ?case by (simp add: Let_def)
qed

lemma split_ws_tokens:
  "s \<noteq> [] \<Longrightarrow> \<not> is_ws (hd s) \<Longrightarrow> \<not> is_ws (last s) \<Longrightarrow> split_ws s = tokens s"
proof (induction "length s" arbitrary: s rule: less_induct)
  case less
  let ?t = "takeWhile (\<lambda>c. \<not> is_ws c) s" and ?r = "dropWhile (\<lambda>c. \<not> is_ws c) s"
  have s: "s = ?t @ ?r" by simp
  have t: "\<forall>c \<in> set ?t. \<not> is_ws c" using set_takeWhileD by fastforce
  have d: "dropWhile is_ws s = s" using less.prems by (cases s) simp_all
  have tok: "tokens s = ?t # tokens ?r"
    using less.prems(1) by (subst tokens_unfold) (simp only: d if_False)
  have spl: "split_ws s = (?t @ hd (split_ws ?r)) # tl (split_ws ?r)"
    using split_ws_word [OF t, of ?r] by simp
  show ?case
  proof (cases ?r)
    case Nil
    have "split_ws ?r = [[]]" "tokens ?r = []"
      by (simp_all only: Nil split_ws.simps tokens_Nil)
    then show ?thesis using tok spl by simp
  next
    case (Cons w r')
    then have w: "is_ws w" by (metis hd_dropWhile list.sel(1) list.distinct(1))
    let ?u = "dropWhile is_ws r'"
    have lr: "last s = last ?r" using Cons by (metis s last_appendR list.distinct(1))
    have r'ne: "r' \<noteq> []" using less.prems(3) lr Cons w by auto
    then have lr': "last r' = last s" using lr Cons by simp
    have "\<not> (\<forall>c \<in> set r'. is_ws c)" using r'ne lr' less.prems(3) last_in_set by metis
    then have une: "?u \<noteq> []" by (simp add: dropWhile_eq_Nil_conv)
    then have hu: "\<not> is_ws (hd ?u)" by (rule hd_dropWhile)
    have "?u = drop (length r' - length ?u) r'"
      by (metis (no_types) append_eq_conv_conj append_take_drop_id diff_add_inverse2 length_append length_drop takeWhile_dropWhile_id)
    then have lu: "last ?u = last r'" using une by (metis last_drop length_drop diff_diff_cancel length_dropWhile_le diff_less length_greater_0_conv zero_less_diff diff_is_0_eq' not_less)
    have len: "length ?u < length s"
    proof -
      have "length ?u \<le> length r'" by (rule length_dropWhile_le)
      moreover have "length ?r \<le> length s" by (rule length_dropWhile_le)
      ultimately show ?thesis using Cons by simp
    qed
    have IH: "split_ws ?u = tokens ?u"
      using less.hyps [OF len une hu] lu lr' less.prems(3) by simp
    have "tokens ?r = tokens ?u"
      using tokens_skip_ws [of ?r] Cons w by simp
    moreover have "split_ws ?r = [] # split_ws ?u" using Cons w by simp
    ultimately show ?thesis using tok spl IH by simp
  qed
qed

lemma trim_ends: "trim s = [] \<or> (\<not> is_ws (hd (trim s)) \<and> \<not> is_ws (last (trim s)))"
proof (cases "trim s = []")
  case True
  then show ?thesis by simp
next
  case False
  let ?a = "dropWhile is_ws s"
  let ?b = "dropWhile is_ws (rev ?a)"
  have t: "trim s = rev ?b" by (simp add: trim_def)
  with False have bne: "?b \<noteq> []" by simp
  then have hb: "\<not> is_ws (hd ?b)" by (rule hd_dropWhile)
  have la: "last (trim s) = hd ?b" using bne by (simp add: t last_rev)
  have ane: "?a \<noteq> []"
  proof
    assume "?a = []"
    then have "?b = []" by (simp only: rev.simps dropWhile.simps)
    with bne show False by simp
  qed
  then have ha: "\<not> is_ws (hd ?a)" by (rule hd_dropWhile)
  have "\<exists>k. ?b = drop k (rev ?a)"
    by (metis append_eq_conv_conj takeWhile_dropWhile_id)
  then obtain k where k: "?b = drop k (rev ?a)" ..
  have "last ?b = last (rev ?a)"
    using bne k by (metis drop_eq_Nil last_drop not_le)
  then have "hd (trim s) = hd ?a"
    using bne ane by (simp add: t hd_rev last_rev)
  with ha hb la show ?thesis by simp
qed

lemma tokens_nonempty: "s \<noteq> [] \<Longrightarrow> \<not> is_ws (hd s) \<Longrightarrow> tokens s \<noteq> []"
  by (subst tokens_unfold) (cases s, simp_all)

lemma split_ws_trim: "split_ws (trim s) = (if tokens s = [] then [[]] else tokens s)"
proof (cases "trim s = []")
  case True
  then have "tokens s = []" using tokens_trim [of s] by (simp add: tokens_Nil)
  with True show ?thesis by simp
next
  case False
  with trim_ends [of s] have e: "\<not> is_ws (hd (trim s))" "\<not> is_ws (last (trim s))" by simp_all
  have "split_ws (trim s) = tokens s"
    using split_ws_tokens [OF False e] by (simp add: tokens_trim)
  moreover have "tokens s \<noteq> []"
    using tokens_nonempty [OF False e(1)] by (simp add: tokens_trim)
  ultimately show ?thesis by simp
qed

lemma trim_empty_tokens: "(trim s = []) = (tokens s = [])"
proof
  assume "trim s = []"
  then show "tokens s = []" using tokens_trim [of s] by (simp add: tokens_Nil)
next
  assume t: "tokens s = []"
  show "trim s = []"
  proof (rule ccontr)
    assume ne: "trim s \<noteq> []"
    with trim_ends [of s] have "\<not> is_ws (hd (trim s))" by simp
    from tokens_nonempty [OF ne this] t show False by (simp add: tokens_trim)
  qed
qed

lemma parseDeviceLine_tokens:
  "parseDeviceLine line =
     (if length (tokens line) < 2 then None
      else Some \<lparr>serial = tokens line ! 0,
                 state = tokens line ! 1,
                 model = foldl add_prop Map.empty (drop 2 (tokens line)) ''model'',
                 product = foldl add_prop Map.empty (drop 2 (tokens line)) ''product'',
                 device = foldl add_prop Map.empty (drop 2 (tokens line)) ''device'',
                 transportId = foldl add_prop Map.empty (drop 2 (tokens line)) ''transport_id'',
                 isEmulator = (prefix ''emulator-'' (tokens line ! 0) \<or>
                               sublist '':5555'' (tokens line ! 0))\<rparr>)"
proof (cases "tokens line = []")
  case True
  then show ?thesis by (simp add: parseDeviceLine_def split_ws_trim)
next
  case False
  then show ?thesis
    by (simp add: parseDeviceLine_def split_ws_trim Let_def startsWith_prefix includes_sublist)
qed

lemma hd_split_on: "hd (split_on d s) = takeWhile (\<lambda>c. c \<noteq> d) s"
  by (induction s) (simp_all add: Let_def)

lemma add_prop_no_colon: "CHR '':'' \<notin> set t \<Longrightarrow> add_prop props t = props"
  by (simp add: add_prop_def split_on_free)

lemma add_prop_pair:
  assumes "CHR '':'' \<notin> set k"
  shows "add_prop props (k @ '':'' @ rest) =
           (if k \<noteq> [] \<and> takeWhile (\<lambda>c. c \<noteq> CHR '':'') rest \<noteq> []
            then props(k \<mapsto> takeWhile (\<lambda>c. c \<noteq> CHR '':'') rest) else props)"
proof -
  have sp: "split_on CHR '':'' (k @ '':'' @ rest) = k # split_on CHR '':'' rest"
    using split_on_sep [OF assms, of rest] by simp
  obtain x xs where r: "split_on CHR '':'' rest = x # xs"
    using split_on_nonempty [of "CHR '':''" rest] by (cases "split_on CHR '':'' rest") auto
  have "x = takeWhile (\<lambda>c. c \<noteq> CHR '':'') rest"
    using hd_split_on [of "CHR '':''" rest] r by simp
  then show ?thesis
    unfolding add_prop_def sp r by (simp add: Let_def)
qed

lemma collect_devices_eq:
  "collect_devices lines =
     List.map_filter parseDeviceLine
       (filter (\<lambda>l. \<not> prefix ''List of devices'' l \<and> tokens l \<noteq> []) lines)"
  by (induction lines)
     (simp_all add: map_filter_simps startsWith_prefix trim_empty_tokens split: option.splits)

lemma tokens_two:
  assumes "sr \<noteq> []" "st \<noteq> []" "\<forall>c \<in> set sr. \<not> is_ws c" "\<forall>c \<in> set st. \<not> is_ws c"
  shows "tokens (sr @ '' '' @ st) = [sr, st]"
proof -
  let ?P = "\<lambda>c. \<not> is_ws c"
  have sp: "is_ws CHR '' ''" by (simp add: is_ws_def)
  have h: "\<not> is_ws (hd sr)" using assms(1,3) by (cases sr) simp_all
  have d1: "dropWhile is_ws (sr @ '' '' @ st) = sr @ '' '' @ st"
    using assms(1) h by (cases sr) simp_all
  have t1: "takeWhile ?P (sr @ '' '' @ st) = sr"
    using assms(3) sp by (simp add: takeWhile_append)
  have r1: "dropWhile ?P (sr @ '' '' @ st) = '' '' @ st"
    using assms(3) sp by (simp add: dropWhile_append)
  have hs: "\<not> is_ws (hd st)" using assms(2,4) by (cases st) simp_all
  have d2: "dropWhile is_ws ('' '' @ st) = st"
    using sp assms(2) hs by (cases st) simp_all
  have t2: "takeWhile ?P st = st" using assms(4) by (simp add: takeWhile_eq_all_conv)
  have r2: "dropWhile ?P st = []" using assms(4) by simp
  have ne: "sr @ '' '' @ st \<noteq> []" by simp
  have d3: "dropWhile is_ws st = st" using assms(2) hs by (cases st) simp_all
  have "tokens st = [st]"
    by (subst tokens_unfold) (simp only: d3 assms(2) t2 r2 tokens_Nil if_False)
  then have "tokens ('' '' @ st) = [st]"
    using tokens_skip_ws [of "'' '' @ st"] by (simp only: d2)
  then show ?thesis
    by (subst tokens_unfold) (simp only: d1 ne t1 r1 if_False)
qed

text \<open>
  C7. The claim that \<open>isEmulator\<close> holds exactly for a serial with the emulator prefix or one
  that denotes the default wireless port fails: the test of the code is that \<open>:5555\<close>
  occurs in the serial, which also holds for the port 55555.
\<close>

theorem C7_port_55555_counterexample:
  "parseDeviceLine ''10.0.0.2:55555 device'' =
     Some \<lparr>serial = ''10.0.0.2:55555'', state = ''device'', model = None, product = None,
            device = None, transportId = None, isEmulator = True\<rparr> \<and>
   \<not> prefix ''emulator-'' ''10.0.0.2:55555'' \<and>
   \<not> denotes_default_port ''10.0.0.2:55555''"
proof -
  have "parseDeviceLine ''10.0.0.2:55555 device'' =
     Some \<lparr>serial = ''10.0.0.2:55555'', state = ''device'', model = None, product = None,
            device = None, transportId = None, isEmulator = True\<rparr>"
    by code_simp
  moreover have "\<not> prefix ''emulator-'' ''10.0.0.2:55555''"
    by simp
  moreover have "\<not> denotes_default_port ''10.0.0.2:55555''"
    by (simp add: denotes_default_port_def suffix_to_prefix)
  ultimately show ?thesis by blast
qed

text \<open>
  C7, amended. Device listing parse. \<open>getDevices\<close> drops the lines that start with the header
  text and the blank lines, parses every other line and skips those that do not parse. A
  line with fewer than two white-space separated tokens does not parse. Otherwise the first
  token is the serial, the second the state, and the remaining tokens are read as
  \<open>key:value\<close>: a token without a colon, or with an empty key or an empty value, is ignored (the
  value ends at the next colon), and \<open>model\<close>, \<open>product\<close>, \<open>device\<close> and \<open>transport_id\<close> are
  looked up among them. \<open>isEmulator\<close> holds exactly when the serial starts with \<open>emulator-\<close> or
  contains \<open>:5555\<close>, which every serial that denotes the default wireless port does. The
  device line of the scenario gives \<open>isEmulator\<close> true and the model \<open>sdk_gphone64_arm64\<close>.
\<close>

theorem C7_device_listing_parse:
  "(client [''devices'', ''-l''] None = Inr result \<longrightarrow>
      getDevices client =
        Inr (List.map_filter parseDeviceLine
               (filter (\<lambda>l. \<not> prefix ''List of devices'' l \<and> tokens l \<noteq> [])
                  (split_on CHR 0x0A (stdout result))))) \<and>
   (length (tokens line) < 2 \<longrightarrow> parseDeviceLine line = None) \<and>
   (2 \<le> length (tokens line) \<longrightarrow>
      (\<exists>d. parseDeviceLine line = Some d \<and>
           serial d = tokens line ! 0 \<and>
           state d = tokens line ! 1 \<and>
           model d = foldl add_prop Map.empty (drop 2 (tokens line)) ''model'' \<and>
           product d = foldl add_prop Map.empty (drop 2 (tokens line)) ''product'' \<and>
           device d = foldl add_prop Map.empty (drop 2 (tokens line)) ''device'' \<and>
           transportId d = foldl add_prop Map.empty (drop 2 (tokens line)) ''transport_id'' \<and>
           isEmulator d = (prefix ''emulator-'' (serial d) \<or> sublist '':5555'' (serial d)))) \<and>
   (denotes_default_port sr \<longrightarrow> sublist '':5555'' sr) \<and>
   (CHR '':'' \<notin> set t \<longrightarrow> add_prop props t = props) \<and>
   (CHR '':'' \<notin> set k \<longrightarrow>
      add_prop props (k @ '':'' @ rest) =
        (if k \<noteq> [] \<and> takeWhile (\<lambda>c. c \<noteq> CHR '':'') rest \<noteq> []
         then props(k \<mapsto> takeWhile (\<lambda>c. c \<noteq> CHR '':'') rest) else props)) \<and>
   parseDeviceLine
     ''emulator-5554 device product:sdk_gphone64_arm64 model:sdk_gphone64_arm64 device:emu64a transport_id:1'' =
     Some \<lparr>serial = ''emulator-5554'', state = ''device'',
            model = Some ''sdk_gphone64_arm64'', product = Some ''sdk_gphone64_arm64'',
            device = Some ''emu64a'', transportId = Some ''1'', isEmulator = True\<rparr>"
proof -
  have a: "getDevices client =
        Inr (List.map_filter parseDeviceLine
               (filter (\<lambda>l. \<not> prefix ''List of devices'' l \<and> tokens l \<noteq> [])
                  (split_on CHR 0x0A (stdout result))))"
    if "client [''devices'', ''-l''] None = Inr result"
    using that by (simp add: getDevices_def collect_devices_eq)
  have b: "parseDeviceLine line = None" if "length (tokens line) < 2"
    using that by (simp add: parseDeviceLine_tokens)
  have c: "\<exists>d. parseDeviceLine line = Some d \<and>
           serial d = tokens line ! 0 \<and>
           state d = tokens line ! 1 \<and>
           model d = foldl add_prop Map.empty (drop 2 (tokens line)) ''model'' \<and>
           product d = foldl add_prop Map.empty (drop 2 (tokens line)) ''product'' \<and>
           device d = foldl add_prop Map.empty (drop 2 (tokens line)) ''device'' \<and>
           transportId d = foldl add_prop Map.empty (drop 2 (tokens line)) ''transport_id'' \<and>
           isEmulator d = (prefix ''emulator-'' (serial d) \<or> sublist '':5555'' (serial d))"
    if "2 \<le> length (tokens line)"
    using that by (simp add: parseDeviceLine_tokens)
  have d: "parseDeviceLine
     ''emulator-5554 device product:sdk_gphone64_arm64 model:sdk_gphone64_arm64 device:emu64a transport_id:1'' =
     Some \<lparr>serial = ''emulator-5554'', state = ''device'',
            model = Some ''sdk_gphone64_arm64'', product = Some ''sdk_gphone64_arm64'',
            device = Some ''emu64a'', transportId = Some ''1'', isEmulator = True\<rparr>"
    by code_simp
  have e: "sublist '':5555'' sr" if "denotes_default_port sr"
    using that by (simp add: denotes_default_port_def suffix_imp_sublist)
  show ?thesis
    using a b c d e add_prop_no_colon add_prop_pair by blast
qed

theorem C7_device_listing_parse_witness:
  "offline_client [''devices'', ''-l''] None =
     Inr \<lparr>exitCode = 0,
          stdout = ''List of devices attached\<newline>R58M device usb:1 model:Pixel_7\<newline>\<newline>'',
          stderr = []\<rparr> \<and>
   getDevices offline_client =
     Inr [\<lparr>serial = ''R58M'', state = ''device'', model = Some ''Pixel_7'', product = None,
           device = None, transportId = None, isEmulator = False\<rparr>] \<and>
   length (tokens ''List'') < 2 \<and> parseDeviceLine ''List'' = None \<and>
   2 \<le> length (tokens ''  192.168.1.7:5555   offline  transport_id:4 '') \<and>
   (\<exists>d. parseDeviceLine ''  192.168.1.7:5555   offline  transport_id:4 '' = Some d \<and>
        serial d = ''192.168.1.7:5555'' \<and> state d = ''offline'' \<and> model d = None \<and>
        transportId d = Some ''4'' \<and> isEmulator d)"
proof -
  let ?res = "\<lparr>exitCode = 0,
          stdout = ''List of devices attached\<newline>R58M device usb:1 model:Pixel_7\<newline>\<newline>'',
          stderr = []\<rparr>"
  let ?line = "''  192.168.1.7:5555   offline  transport_id:4 ''"
  have r: "offline_client [''devices'', ''-l''] None = Inr ?res"
    by (simp add: offline_client_def)
  have t1: "tokens ''List'' = [''List'']" by code_simp
  have t2: "tokens ?line = [''192.168.1.7:5555'', ''offline'', ''transport_id:4'']" by code_simp
  have f: "List.map_filter parseDeviceLine
               (filter (\<lambda>l. \<not> prefix ''List of devices'' l \<and> tokens l \<noteq> [])
                  (split_on CHR 0x0A (stdout ?res))) =
           [\<lparr>serial = ''R58M'', state = ''device'', model = Some ''Pixel_7'', product = None,
           device = None, transportId = None, isEmulator = False\<rparr>]"
    by code_simp
  have p: "add_prop Map.empty ''transport_id:4'' = [''transport_id'' \<mapsto> ''4'']"
    by (simp add: add_prop_def Let_def)
  have e: "sublist '':5555'' ''192.168.1.7:5555''"
    unfolding includes_sublist [symmetric] by simp
  from C7_device_listing_parse [of offline_client ?res "''List''" "[]" "[]" Map.empty "[]" "[]"] r t1 f
  have g: "getDevices offline_client =
     Inr [\<lparr>serial = ''R58M'', state = ''device'', model = Some ''Pixel_7'', product = None,
           device = None, transportId = None, isEmulator = False\<rparr>]"
    and n: "parseDeviceLine ''List'' = None"
    by simp_all
  have "\<exists>d. parseDeviceLine ?line = Some d \<and>
        serial d = ''192.168.1.7:5555'' \<and> state d = ''offline'' \<and> model d = None \<and>
        transportId d = Some ''4'' \<and> isEmulator d"
    using C7_device_listing_parse [of offline_client ?res ?line "[]" "[]" Map.empty "[]" "[]"] e
    by (auto simp: t2 p)
  with r g n t1 t2 show ?thesis by simp
qed

text \<open>
  C10. The state is the second token, unchecked. For every line with at least two
  white-space separated tokens the parser returns a device whose state is the second token
  as it stands. In particular any non-empty word without white space, placed after a serial
  and one space, comes back as the state: nothing compares it with the known states.
\<close>

theorem C10_state_passed_through:
  "(2 \<le> length (tokens line) \<longrightarrow>
      (\<exists>d. parseDeviceLine line = Some d \<and> state d = tokens line ! 1)) \<and>
   (sr \<noteq> [] \<and> st \<noteq> [] \<and> (\<forall>c \<in> set sr. \<not> is_ws c) \<and> (\<forall>c \<in> set st. \<not> is_ws c) \<longrightarrow>
      (\<exists>d. parseDeviceLine (sr @ '' '' @ st) = Some d \<and> state d = st))"
proof -
  have a: "\<exists>d. parseDeviceLine line = Some d \<and> state d = tokens line ! 1"
    if "2 \<le> length (tokens line)"
    using that by (simp add: parseDeviceLine_tokens)
  have b: "\<exists>d. parseDeviceLine (sr @ '' '' @ st) = Some d \<and> state d = st"
    if "sr \<noteq> []" "st \<noteq> []" "\<forall>c \<in> set sr. \<not> is_ws c" "\<forall>c \<in> set st. \<not> is_ws c"
    using tokens_two [OF that] by (simp add: parseDeviceLine_tokens)
  show ?thesis using a b by blast
qed

theorem C10_state_passed_through_witness:
  "2 \<le> length (tokens ''R58M frobnicate usb:1'') \<and>
   tokens ''R58M frobnicate usb:1'' ! 1 = ''frobnicate'' \<and>
   (\<exists>d. parseDeviceLine ''R58M frobnicate usb:1'' = Some d \<and> state d = ''frobnicate'')"
proof -
  have t: "tokens ''R58M frobnicate usb:1'' = [''R58M'', ''frobnicate'', ''usb:1'']"
    by code_simp
  from C10_state_passed_through [of "''R58M frobnicate usb:1''"] t show ?thesis by simp
qed

section \<open>Device details\<close>

text \<open>For a device that is not ready no query is started and the basic record is pushed;
  the same record is pushed when one of the three queries is rejected.\<close>

lemma device_info_not_ready:
  "state d \<noteq> ''device'' \<Longrightarrow> device_info client d = ([], basic_info d)"
  by (simp add: device_info_def)

lemma device_info_rejected:
  assumes "state d = ''device''"
    and "getDeviceName client (serial d) = Inl e1 \<or> getApiLevel client (serial d) = Inl e2 \<or>
         getAndroidVersion client (serial d) = Inl e3"
  shows "snd (device_info client d) = basic_info d"
  using assms by (auto simp: device_info_def Let_def split: sum.splits)

lemma basic_info_fields:
  "name (basic_info d) = (case model d of Some m \<Rightarrow> m | None \<Rightarrow> serial d) \<and>
   apiLevel (basic_info d) = Num 0 \<and> androidVersion (basic_info d) = ''Unknown''"
  by (simp add: basic_info_def Device.extend_def DeviceInfo.fields_def)

text \<open>
  C8. Graceful degradation of property resolution: the code departs from the claim when a
  query is not rejected but prints nothing. \<open>exec\<close> resolves whatever the exit code of the
  child, so for the client below (the device goes offline after the listing: exit code 1,
  empty stdout) \<open>Promise.all\<close> succeeds, \<open>parseInt\<close> of the empty string is \<open>NaN\<close>, and the
  record has \<open>apiLevel = NaN\<close> and an empty \<open>androidVersion\<close> instead of 0 and \<open>Unknown\<close>.
\<close>

theorem C8_apiLevel_NaN_on_empty_output:
  "AdbService_getDevices offline_client =
     Inr ([([''devices'', ''-l''], None),
           ([''shell'', ''getprop''], Some ''R58M''),
           ([''shell'', ''getprop ro.build.version.sdk''], Some ''R58M''),
           ([''shell'', ''getprop ro.build.version.release''], Some ''R58M'')],
          [\<lparr>serial = ''R58M'', state = ''device'', model = Some ''Pixel_7'', product = None,
            device = None, transportId = None, isEmulator = False,
            name = ''Pixel 7'', apiLevel = NaN, androidVersion = []\<rparr>])"
  by code_simp

section \<open>The line parser\<close>

























end
